theory Spec2Isabelle
  imports Complex_Main "HOL-Library.Word"
begin

unbundle bit_operations_syntax

section \<open>The DHT11/DHT22 driver of \<^verbatim>\<open>dhtxx.c\<close>\<close>

text \<open>
  The driver reads a one-wire temperature and humidity sensor by polling a GPIO pin.
  The embedding follows \<^verbatim>\<open>dht_read\<close> line by line, in the parts that its comments
  mark: the wait for the pin to drop, the capture loop with its inner counting loop and
  its store, and the checks after the loop.

  \<^item> A C \<^verbatim>\<open>int\<close> that is shifted, masked or counted up to a \<^verbatim>\<open>break\<close> is a 32-bit
    word; \<open>sint\<close> reads its value.
  \<^item> The loop indices \<^verbatim>\<open>i\<close> and \<^verbatim>\<open>j\<close> are natural numbers: both start at 0, are
    only incremented, and the loops bound \<^verbatim>\<open>i\<close> by 32000 and by 10000, and \<^verbatim>\<open>j\<close> by
    \<^verbatim>\<open>i\<close>, so neither can wrap.
  \<^item> The pin is an input of the program: \<open>line k\<close> is the level that the \<open>k\<close>-th
    call of \<^verbatim>\<open>GPIO_INPUT_GET(pin)\<close> after the handshake returns (the macro yields 0
    or 1, here \<open>False\<close> or \<open>True\<close>). Every loop threads the number \<open>t\<close> of reads
    made so far. The handshake before the first read only drives the pin and sleeps.
  \<^item> A C \<^verbatim>\<open>float\<close> is a real number. The cells that the scaling functions read hold
    bytes when \<^verbatim>\<open>dht_read\<close> calls them (lemma \<open>capture_gives_bytes\<close> below), so every
    value they hold before they divide is an integer below \<open>2 ^ 16\<close>, which a
    \<^verbatim>\<open>float\<close> holds exactly; the division by the \<^verbatim>\<open>double\<close> constant 10.0 and the
    conversion of the quotient back to \<^verbatim>\<open>float\<close> are the only steps that round, and
    that rounding is the parameter \<open>fl\<close> of the model.
  \<^item> The local array \<^verbatim>\<open>int data[100]\<close> is a store from indices to words. Its first five
    cells are zeroed, the other cells hold whatever the stack held (the parameter
    \<open>stack\<close>). A write outside the 100 cells is undefined behaviour in C; the model
    stops there with the fault \<open>BufferOverrun\<close>.
  \<^item> \<^verbatim>\<open>os_printf\<close> is the only way the C function tells its failures apart; the
    model returns what the message of each \<^verbatim>\<open>return false\<close> prints as a value of
    type \<open>failure\<close>.
\<close>

type_synonym int32 = "32 word"

abbreviation DHT_MAXTIMINGS :: nat where "DHT_MAXTIMINGS \<equiv> 10000"
abbreviation DHT_BREAKTIME :: int32 where "DHT_BREAKTIME \<equiv> 20"
abbreviation DHT_MAXCOUNT :: nat where "DHT_MAXCOUNT \<equiv> 32000"

datatype DHTType = DHT11 | DHT22

record DHT_Sensor_Output =
  temperature :: real
  humidity :: real

record DHT_Sensor =
  pin :: "8 word"
  type :: DHTType

subsection \<open>Scaling\<close>

definition scale_humidity :: "(real \<Rightarrow> real) \<Rightarrow> DHTType \<Rightarrow> (nat \<Rightarrow> int32) \<Rightarrow> real" where
  "scale_humidity fl sensor_type data =
     (if sensor_type = DHT11 then real_of_int (sint (data 0))
      else let humidity = real_of_int (sint (data 0 * 256 + data 1))
           in fl (humidity / 10))"

definition scale_temperature :: "(real \<Rightarrow> real) \<Rightarrow> DHTType \<Rightarrow> (nat \<Rightarrow> int32) \<Rightarrow> real" where
  "scale_temperature fl sensor_type data =
     (if sensor_type = DHT11 then real_of_int (sint (data 2))
      else let temperature = real_of_int (sint (data 2 AND 0x7f));
               temperature = temperature * 256;
               temperature = temperature + real_of_int (sint (data 3));
               temperature = fl (temperature / 10);
               temperature = (if data 2 AND 0x80 \<noteq> 0 then temperature * (- 1)
                              else temperature)
           in temperature)"

subsection \<open>The three phases of \<^verbatim>\<open>dht_read\<close>\<close>

datatype failure =
    Timeout
  | InsufficientBits nat
  | ChecksumMismatch nat int32 int32

datatype verdict = Success | Failed failure

datatype fault = BufferOverrun nat

text \<open>
  Lines 86 to 89: wait for the pin to drop. The pin is read before \<^verbatim>\<open>i\<close> is compared,
  so the read happens on every evaluation of the loop condition. The result is the
  final \<^verbatim>\<open>i\<close> and the number of reads made.
\<close>

function wait_for_drop :: "(nat \<Rightarrow> bool) \<Rightarrow> nat \<Rightarrow> nat \<Rightarrow> nat \<times> nat" where
  "wait_for_drop line i t =
     (if line t \<and> i < DHT_MAXCOUNT then wait_for_drop line (Suc i) (Suc t)
      else (i, Suc t))"
  by pat_completeness auto
termination
  by (relation "measure (\<lambda>(line, i, t). DHT_MAXCOUNT - i)") auto

text \<open>
  Lines 100 to 105: count the polls for which the pin keeps the level \<^verbatim>\<open>laststate\<close>,
  leaving the loop when the counter reaches 1000.
\<close>

function count_time :: "(nat \<Rightarrow> bool) \<Rightarrow> bool \<Rightarrow> int32 \<Rightarrow> nat \<Rightarrow> int32 \<times> nat" where
  "count_time line laststate counter t =
     (if line t = laststate then
        (if counter + 1 = 1000 then (counter + 1, Suc t)
         else count_time line laststate (counter + 1) (Suc t))
      else (counter, Suc t))"
  by pat_completeness auto
termination
proof (relation "measure (\<lambda>(line, laststate, counter, t). unat (999 - counter))", goal_cases)
  case 1
  show ?case by simp
next
  case (2 line laststate counter t)
  then have nz: "999 - counter \<noteq> 0" by simp
  have e: "999 - (counter + 1) = (999 - counter) - 1" by simp
  have "unat ((999 - counter) - 1) = unat (999 - counter) - 1"
    using nz by (rule unat_minus_one)
  moreover have "0 < unat (999 - counter)"
    using nz by (simp add: unat_gt_0)
  ultimately have "unat ((999 - counter) - 1) < unat (999 - counter)"
    by arith
  then have "unat (999 - (counter + 1)) < unat (999 - counter)" by (simp only: e)
  then show ?case by simp
qed

text \<open>Lines 112 to 114: shift the byte of bit \<^verbatim>\<open>j\<close> and set its lowest bit for a long pulse.\<close>

definition store_bit :: "int32 \<Rightarrow> nat \<Rightarrow> (nat \<Rightarrow> int32) \<Rightarrow> (nat \<Rightarrow> int32)" where
  "store_bit counter j data =
     (let data = data(j div 8 := push_bit 1 (data (j div 8)))
      in if DHT_BREAKTIME <s counter then data(j div 8 := data (j div 8) OR 1) else data)"

text \<open>Lines 110 to 116, with the bound of the array made explicit.\<close>

definition store_transition ::
  "nat \<Rightarrow> int32 \<Rightarrow> nat \<Rightarrow> (nat \<Rightarrow> int32) \<Rightarrow> fault + nat \<times> (nat \<Rightarrow> int32)" where
  "store_transition i counter j data =
     (if 3 < i \<and> i mod 2 = 0 then
        (if j div 8 < 100 then Inr (Suc j, store_bit counter j data)
         else Inl (BufferOverrun (j div 8)))
      else Inr (j, data))"

text \<open>Lines 97 to 117: the capture loop. The result is \<^verbatim>\<open>j\<close> and the array.\<close>

function capture ::
  "(nat \<Rightarrow> bool) \<Rightarrow> nat \<Rightarrow> bool \<Rightarrow> nat \<Rightarrow> (nat \<Rightarrow> int32) \<Rightarrow> nat
     \<Rightarrow> fault + nat \<times> (nat \<Rightarrow> int32)" where
  "capture line i laststate j data t =
     (if i < DHT_MAXTIMINGS then
        (case count_time line laststate 0 t of
           (counter, t) \<Rightarrow>
             let laststate = line t in
             if counter = 1000 then Inr (j, data)
             else (case store_transition i counter j data of
                     Inl e \<Rightarrow> Inl e
                   | Inr (j, data) \<Rightarrow> capture line (Suc i) laststate j data (Suc t)))
      else Inr (j, data))"
  by pat_completeness auto
termination
  by (relation "measure (\<lambda>(line, i, laststate, j, data, t). DHT_MAXTIMINGS - i)") auto

text \<open>Lines 119 to 139: the bit count, the checksum and the scaling.\<close>

definition verify ::
  "(real \<Rightarrow> real) \<Rightarrow> DHT_Sensor \<Rightarrow> DHT_Sensor_Output \<Rightarrow> nat \<Rightarrow> (nat \<Rightarrow> int32)
     \<Rightarrow> verdict \<times> DHT_Sensor_Output" where
  "verify fl sensor output j data =
     (if 39 \<le> j then
        let checksum = (data 0 + data 1 + data 2 + data 3) AND 0xFF in
        if data 4 = checksum then
          (Success, output\<lparr>temperature := scale_temperature fl (type sensor) data,
                           humidity := scale_humidity fl (type sensor) data\<rparr>)
        else (Failed (ChecksumMismatch j (data 4) checksum), output)
      else (Failed (InsufficientBits j), output))"

text \<open>Line 71: the first five cells of the array are zeroed.\<close>

definition data_init :: "(nat \<Rightarrow> int32) \<Rightarrow> (nat \<Rightarrow> int32)" where
  "data_init stack = stack(0 := 0, 1 := 0, 2 := 0, 3 := 0, 4 := 0)"

definition dht_read ::
  "(real \<Rightarrow> real) \<Rightarrow> (nat \<Rightarrow> int32) \<Rightarrow> DHT_Sensor \<Rightarrow> DHT_Sensor_Output \<Rightarrow> (nat \<Rightarrow> bool)
     \<Rightarrow> fault + verdict \<times> DHT_Sensor_Output" where
  "dht_read fl stack sensor output line =
     (case wait_for_drop line 0 0 of
        (i, t) \<Rightarrow>
          if i = DHT_MAXCOUNT then Inr (Failed Timeout, output)
          else (case capture line 0 True 0 (data_init stack) t of
                  Inl e \<Rightarrow> Inl e
                | Inr (j, data) \<Rightarrow> Inr (verify fl sensor output j data)))"

subsection \<open>What the capture loop measures, and how the bits are to be packed\<close>

text \<open>
  Lines 97 to 108 without the store: the counters of the transitions that the loop
  completes, in the order of their index \<^verbatim>\<open>i\<close>. The list ends where a counter reaches
  1000 or where \<^verbatim>\<open>i\<close> reaches \<open>DHT_MAXTIMINGS\<close>.
\<close>

function transitions :: "(nat \<Rightarrow> bool) \<Rightarrow> nat \<Rightarrow> bool \<Rightarrow> nat \<Rightarrow> int32 list" where
  "transitions line i laststate t =
     (if i < DHT_MAXTIMINGS then
        (case count_time line laststate 0 t of
           (counter, t) \<Rightarrow>
             if counter = 1000 then []
             else counter # transitions line (Suc i) (line t) (Suc t))
      else [])"
  by pat_completeness auto
termination
  by (relation "measure (\<lambda>(line, i, laststate, t). DHT_MAXTIMINGS - i)") auto

text \<open>
  The packing as the specification words it, to be compared with \<open>capture\<close>: a bit
  for every transition whose index is greater than 3 and even, 1 when the duration
  exceeds the breaktime; the value of a list of bits read with the first bit as the
  most significant one; and the bits of byte \<open>k\<close>, eight to a byte, in order.
\<close>

definition data_bits :: "int32 list \<Rightarrow> bool list" where
  "data_bits durations =
     [DHT_BREAKTIME <s durations ! i. i \<leftarrow> [0..<length durations], 3 < i \<and> even i]"

definition msb_first :: "bool list \<Rightarrow> int32" where
  "msb_first bits = horner_sum of_bool 2 (rev bits)"

definition byte_bits :: "nat \<Rightarrow> bool list \<Rightarrow> bool list" where
  "byte_bits k bits = take 8 (drop (8 * k) bits)"

text \<open>
  Auxiliary functions of the proofs: the bits of the transitions from index \<open>i\<close> on,
  the stores of a list of bits from bit index \<open>j\<close> on, and the bits among them that
  land in cell \<open>k\<close>.
\<close>

fun bits_from :: "nat \<Rightarrow> int32 list \<Rightarrow> bool list" where
  "bits_from i [] = []"
| "bits_from i (counter # cs) =
     (if 3 < i \<and> i mod 2 = 0 then (DHT_BREAKTIME <s counter) # bits_from (Suc i) cs
      else bits_from (Suc i) cs)"

fun append_bits :: "bool list \<Rightarrow> nat \<Rightarrow> (nat \<Rightarrow> int32) \<Rightarrow> (nat \<Rightarrow> int32)" where
  "append_bits [] j data = data"
| "append_bits (b # bs) j data =
     append_bits bs (Suc j) (data(j div 8 := push_bit 1 (data (j div 8)) + of_bool b))"

definition cell_bits :: "nat \<Rightarrow> nat \<Rightarrow> bool list \<Rightarrow> bool list" where
  "cell_bits k j bs = take (min 8 (8 * Suc k - j)) (drop (8 * k - j) bs)"

subsection \<open>Lines\<close>

text \<open>
  Four lines, given by the level of every read. On \<open>demo_line\<close> the sensor answers
  and sends the bits 1, 0 and 1 as high pulses of 30, 10 and 30 reads, then holds the
  line low. On \<open>boundary_line\<close> it sends two bits as high pulses of 22 and 23
  reads, which the loop measures as 20 and 21 polls. On \<open>short_frame\<close> the line
  changes at every read up to read 163 and is low from then on. On \<open>toggling\<close> it
  changes at every read for ever.
\<close>

definition demo_line :: "nat \<Rightarrow> bool" where
  "demo_line k \<longleftrightarrow> (5 \<le> k \<and> k < 10) \<or> (14 \<le> k \<and> k < 44) \<or> (48 \<le> k \<and> k < 58) \<or> (62 \<le> k \<and> k < 92)"

definition boundary_line :: "nat \<Rightarrow> bool" where
  "boundary_line k \<longleftrightarrow> (5 \<le> k \<and> k < 10) \<or> (14 \<le> k \<and> k < 36) \<or> (40 \<le> k \<and> k < 63)"

definition short_frame :: "nat \<Rightarrow> bool" where
  "short_frame k \<longleftrightarrow> odd k \<and> k < 164"

definition toggling :: "nat \<Rightarrow> bool" where
  "toggling k \<longleftrightarrow> odd k"

section \<open>The loops, unfolded along a given line\<close>

declare wait_for_drop.simps [simp del] count_time.simps [simp del] capture.simps [simp del]
  transitions.simps [simp del]

lemma wait_high:
  "(\<forall>k<n. line (t + k)) \<Longrightarrow> i + n \<le> DHT_MAXCOUNT \<Longrightarrow>
   wait_for_drop line i t = wait_for_drop line (i + n) (t + n)"
proof (induction n arbitrary: i t)
  case 0
  then show ?case by simp
next
  case (Suc n)
  have "line t" using Suc.prems(1) by force
  moreover have "i < DHT_MAXCOUNT" using Suc.prems(2) by simp
  ultimately have "wait_for_drop line i t = wait_for_drop line (Suc i) (Suc t)"
    by (subst wait_for_drop.simps) simp
  also have "\<dots> = wait_for_drop line (Suc i + n) (Suc t + n)"
  proof (rule Suc.IH)
    show "\<forall>k<n. line (Suc t + k)" using Suc.prems(1) by (metis Suc_less_eq add_Suc_shift)
    show "Suc i + n \<le> DHT_MAXCOUNT" using Suc.prems(2) by simp
  qed
  finally show ?case by simp
qed

lemma wait_timeout:
  assumes "\<forall>k<DHT_MAXCOUNT. line k"
  shows "wait_for_drop line 0 0 = (DHT_MAXCOUNT, Suc DHT_MAXCOUNT)"
proof -
  have "wait_for_drop line 0 0 = wait_for_drop line (0 + DHT_MAXCOUNT) (0 + DHT_MAXCOUNT)"
    by (rule wait_high) (use assms in simp_all)
  also have "\<dots> = (DHT_MAXCOUNT, Suc DHT_MAXCOUNT)"
    by (subst wait_for_drop.simps) simp
  finally show ?thesis .
qed

lemma wait_drop:
  assumes "k < DHT_MAXCOUNT" "\<not> line k" "\<forall>m<k. line m"
  shows "wait_for_drop line 0 0 = (k, Suc k)"
proof -
  have "wait_for_drop line 0 0 = wait_for_drop line (0 + k) (0 + k)"
    by (rule wait_high) (use assms in simp_all)
  also have "\<dots> = (k, Suc k)"
    by (subst wait_for_drop.simps) (use assms in simp)
  finally show ?thesis .
qed

lemma count_time_change: "line t \<noteq> laststate \<Longrightarrow> count_time line laststate counter t = (counter, Suc t)"
  by (subst count_time.simps) simp

lemma count_time_run:
  "(\<forall>k<n. line (t + k) = laststate) \<Longrightarrow> unat counter + n < 1000 \<Longrightarrow>
   count_time line laststate counter t = count_time line laststate (counter + of_nat n) (t + n)"
proof (induction n arbitrary: counter t)
  case 0
  then show ?case by simp
next
  case (Suc n)
  have l: "line t = laststate" using Suc.prems(1) by force
  have u: "unat (counter + 1) = Suc (unat counter)"
    using Suc.prems(2) by (simp add: unat_plus_if')
  have ne: "counter + 1 \<noteq> 1000"
  proof
    assume "counter + 1 = 1000"
    then have "unat (counter + 1) = 1000" by simp
    with u Suc.prems(2) show False by simp
  qed
  have "count_time line laststate counter t = count_time line laststate (counter + 1) (Suc t)"
    using l ne by (subst count_time.simps) simp
  also have "\<dots> = count_time line laststate (counter + 1 + of_nat n) (Suc t + n)"
  proof (rule Suc.IH)
    show "\<forall>k<n. line (Suc t + k) = laststate" using Suc.prems(1) by (metis Suc_less_eq add_Suc_shift)
    show "unat (counter + 1) + n < 1000" using u Suc.prems(2) by simp
  qed
  finally show ?case by (simp add: add.assoc)
qed

lemma count_time_stall:
  assumes "\<forall>k<1000. line (t + k) = laststate"
  shows "count_time line laststate 0 t = (1000, t + 1000)"
proof -
  have "count_time line laststate 0 t = count_time line laststate (0 + of_nat 999) (t + 999)"
    by (rule count_time_run) (use assms in simp_all)
  also have "\<dots> = (1000, t + 1000)"
    by (subst count_time.simps) (use assms in simp)
  finally show ?thesis .
qed

lemma capture_line_low:
  "capture (\<lambda>k. False) 0 True 0 data (Suc 0) = Inr (0, data)"
proof -
  have c0: "count_time (\<lambda>k. False) True 0 (Suc 0) = (0, 2)"
    by (simp add: count_time_change)
  have c1: "count_time (\<lambda>k. False) False 0 3 = (1000, 1003)"
    using count_time_stall [where t = 3 and line = "\<lambda>k. False" and laststate = False] by simp
  have "capture (\<lambda>k. False) 0 True 0 data (Suc 0) = capture (\<lambda>k. False) (Suc 0) False 0 data 3"
    by (subst capture.simps) (simp add: c0 store_transition_def)
  also have "\<dots> = Inr (0, data)"
    by (subst capture.simps) (simp add: c1)
  finally show ?thesis .
qed

lemma verify_not_Timeout: "verify fl sensor output j data \<noteq> (Failed Timeout, output')"
  by (simp add: verify_def Let_def)

lemma count_time_exact:
  assumes "\<forall>k<n. line (t + k) = laststate" and "line (t + n) \<noteq> laststate" and "n < 1000"
  shows "count_time line laststate 0 t = (of_nat n, Suc (t + n))"
proof -
  have "count_time line laststate 0 t = count_time line laststate (0 + of_nat n) (t + n)"
    by (rule count_time_run) (use assms in simp_all)
  also have "\<dots> = (of_nat n, Suc (t + n))"
    using assms(2) by (simp add: count_time_change)
  finally show ?thesis .
qed

lemma of_nat_neq_1000: "n < 1000 \<Longrightarrow> (of_nat n :: int32) \<noteq> 1000"
proof
  assume n: "n < 1000" and e: "(of_nat n :: int32) = 1000"
  have "unat (of_nat n :: int32) = n" using n by (simp add: unat_of_nat)
  with e n show False by simp
qed

lemma capture_step:
  assumes "i < DHT_MAXTIMINGS" and "\<forall>k<n. line (t + k) = laststate"
    and "line (t + n) \<noteq> laststate" and "n < 1000"
    and "store_transition i (of_nat n) j data = Inr (j', data')"
    and "i' = Suc i" and "laststate' = line (Suc (t + n))" and "t' = Suc (Suc (t + n))"
  shows "capture line i laststate j data t = capture line i' laststate' j' data' t'"
  by (subst capture.simps)
    (simp add: assms(1,5-8) count_time_exact [OF assms(2,3,4)] of_nat_neq_1000 [OF assms(4)])

lemma capture_stall:
  assumes "\<forall>k<1000. line (t + k) = laststate"
  shows "capture line i laststate j data t = Inr (j, data)"
  by (subst capture.simps) (simp add: count_time_stall [OF assms])

lemma capture_overrun:
  assumes "i < DHT_MAXTIMINGS" and "\<forall>k<n. line (t + k) = laststate"
    and "line (t + n) \<noteq> laststate" and "n < 1000"
    and "store_transition i (of_nat n) j data = Inl e"
  shows "capture line i laststate j data t = Inl e"
  by (subst capture.simps)
    (simp add: assms(1,5) count_time_exact [OF assms(2,3,4)] of_nat_neq_1000 [OF assms(4)])

lemma transitions_step:
  assumes "i < DHT_MAXTIMINGS" and "\<forall>k<n. line (t + k) = laststate"
    and "line (t + n) \<noteq> laststate" and "n < 1000"
    and "i' = Suc i" and "laststate' = line (Suc (t + n))" and "t' = Suc (Suc (t + n))"
    and "counter = of_nat n"
  shows "transitions line i laststate t = counter # transitions line i' laststate' t'"
  by (subst transitions.simps)
    (simp add: assms(1,5-8) count_time_exact [OF assms(2,3,4)] of_nat_neq_1000 [OF assms(4)])

lemma transitions_stall:
  assumes "\<forall>k<1000. line (t + k) = laststate"
  shows "transitions line i laststate t = []"
  by (subst transitions.simps) (simp add: count_time_stall [OF assms])

lemma store_bit_plus:
  "store_bit counter j data =
     data(j div 8 := push_bit 1 (data (j div 8)) + of_bool (DHT_BREAKTIME <s counter))"
  by (simp add: store_bit_def Let_def or_one_eq flip: mult_2_right)

lemma capture_unfold:
  "capture line i laststate j data t =
     (if i < DHT_MAXTIMINGS then
        (case count_time line laststate 0 t of
           (counter, t1) \<Rightarrow>
             if counter = 1000 then Inr (j, data)
             else if 3 < i \<and> i mod 2 = 0 then
               (if j div 8 < 100
                then capture line (Suc i) (line t1) (Suc j) (store_bit counter j data) (Suc t1)
                else Inl (BufferOverrun (j div 8)))
             else capture line (Suc i) (line t1) j data (Suc t1))
      else Inr (j, data))"
  by (subst capture.simps) (auto simp: store_transition_def split: prod.splits)

section \<open>Words as bytes\<close>

lemma ff_mask: "(0xFF :: int32) = mask 8" by (simp add: mask_eq_exp_minus_1)

lemma unat_and_ff: "unat (x AND (0xFF :: int32)) = unat x mod 256"
  unfolding ff_mask by (simp flip: take_bit_eq_mask add: unsigned_take_bit_eq take_bit_eq_mod unat_mod)

lemma mod_chain:
  "((((x + y) mod 4294967296 + z) mod 4294967296 + w) mod 4294967296) mod 256
     = (x + y + z + w) mod (256 :: nat)"
proof -
  have d: "(256 :: nat) dvd 4294967296" by simp
  show ?thesis
    by (simp add: mod_mod_cancel [OF d] mod_simps)
qed

lemma unat_checksum:
  "unat ((a + b + c + d) AND (0xFF :: int32)) = (unat a + unat b + unat c + unat d) mod 256"
  by (simp add: unat_and_ff unat_word_ariths mod_chain)

lemma sint_small:
  assumes "unat (w :: int32) < 2 ^ 31" shows "sint w = int (unat w)"
proof -
  have "int (unat w) < int (2 ^ 31)" using assms by (simp only: of_nat_less_iff)
  then have u: "uint w < 2 ^ 31" by simp
  have nb: "\<not> bit (uint w) 31"
    using u by (simp add: bit_iff_odd)
  have "sint w = signed_take_bit 31 (uint w)" by (simp add: sint_uint)
  also have "\<dots> = take_bit 31 (uint w)" using nb by (rule signed_take_bit_eq_if_positive)
  also have "\<dots> = uint w" using u by (simp add: take_bit_int_eq_self)
  finally show ?thesis by simp
qed

lemma word_eq_unat: "(a :: int32) = b \<longleftrightarrow> unat a = unat b"
  by (simp add: word_unat_eq_iff)

lemma verify_unat:
  assumes "39 \<le> j"
  shows "verify fl sensor output j data =
     (if unat (data 4) = (unat (data 0) + unat (data 1) + unat (data 2) + unat (data 3)) mod 256
      then (Success, output\<lparr>temperature := scale_temperature fl (type sensor) data,
                            humidity := scale_humidity fl (type sensor) data\<rparr>)
      else (Failed (ChecksumMismatch j (data 4)
              (of_nat ((unat (data 0) + unat (data 1) + unat (data 2) + unat (data 3)) mod 256))),
            output))"
proof -
  let ?cs = "(data 0 + data 1 + data 2 + data 3) AND 0xFF"
  let ?n = "(unat (data 0) + unat (data 1) + unat (data 2) + unat (data 3)) mod 256"
  have u: "unat ?cs = ?n" by (rule unat_checksum)
  have c: "?cs = of_nat ?n" unfolding u [symmetric] by simp
  have e: "data 4 = ?cs \<longleftrightarrow> unat (data 4) = ?n"
    unfolding u [symmetric] by (rule word_eq_unat)
  show ?thesis
    using assms unfolding verify_def Let_def e c [symmetric] by simp
qed

lemma byte_sint: "unat (w :: int32) < 256 \<Longrightarrow> sint w = int (unat w)"
  by (rule sint_small) simp

lemma and_7f_sint: "sint (w AND (0x7f :: int32)) = int (unat (w AND 0x7f))"
proof (rule sint_small)
  have "w AND 0x7f \<le> 0x7f" by (rule word_and_le1)
  then have "unat (w AND 0x7f) \<le> unat (0x7f :: int32)" by (simp only: word_le_nat_alt)
  then show "unat (w AND 0x7f) < 2 ^ 31" by simp
qed

lemma two_bytes_sint:
  assumes "unat (a :: int32) < 256" "unat (b :: int32) < 256"
  shows "sint (a * 256 + b) = int (unat a * 256 + unat b)"
proof -
  have "unat (a * 256 + b) = unat a * 256 + unat b"
    using assms by (simp add: unat_word_ariths)
  moreover have "unat a * 256 + unat b < 2 ^ 31" using assms by simp
  ultimately show ?thesis by (simp add: sint_small)
qed

lemma unat_byte: "h < 256 \<Longrightarrow> unat (of_nat h :: int32) = h"
  by (simp add: unat_of_nat)

section \<open>The capture loop packs the selected bits\<close>

lemma bit_count_selected: "3 < i \<and> i mod 2 = 0 \<Longrightarrow> Suc ((i - 3) div 2) = (Suc i - 3) div 2"
  by presburger

lemma bit_count_skipped: "\<not> (3 < i \<and> i mod 2 = 0) \<Longrightarrow> (i - 3) div 2 = (Suc i - 3) div 2"
  by presburger

lemma capture_trace:
  "capture line i laststate j data t = Inr (j', data') \<Longrightarrow>
   j' = j + length (bits_from i (transitions line i laststate t)) \<and>
   data' = append_bits (bits_from i (transitions line i laststate t)) j data"
proof (induction "DHT_MAXTIMINGS - i" arbitrary: i laststate j data t)
  case 0
  then show ?case
    by (simp add: capture_unfold [of line i] transitions.simps [of line i])
next
  case (Suc n)
  then have i: "i < DHT_MAXTIMINGS" by simp
  obtain counter t1 where c: "count_time line laststate 0 t = (counter, t1)"
    by (cases "count_time line laststate 0 t")
  show ?case
  proof (cases "counter = 1000")
    case True
    then show ?thesis
      using Suc.prems i c
      by (simp add: capture_unfold [of line i] transitions.simps [of line i])
  next
    case False
    have tr: "transitions line i laststate t = counter # transitions line (Suc i) (line t1) (Suc t1)"
      using i c False by (simp add: transitions.simps [of line i])
    have n: "n = DHT_MAXTIMINGS - Suc i" using Suc.hyps(2) by simp
    show ?thesis
    proof (cases "3 < i \<and> i mod 2 = 0")
      case sel: True
      then have ok: "j div 8 < 100"
        using Suc.prems i c False by (simp add: capture_unfold [of line i] split: if_splits)
      have "capture line (Suc i) (line t1) (Suc j) (store_bit counter j data) (Suc t1) = Inr (j', data')"
        using Suc.prems i c False sel ok by (simp add: capture_unfold [of line i])
      from Suc.hyps(1) [OF n this] show ?thesis
        using sel by (simp add: tr store_bit_plus)
    next
      case nsel: False
      have "capture line (Suc i) (line t1) j data (Suc t1) = Inr (j', data')"
        using Suc.prems i c False nsel by (simp add: capture_unfold [of line i])
      from Suc.hyps(1) [OF n this] show ?thesis
        using nsel by (simp add: tr)
    qed
  qed
qed

lemma bits_from_indices:
  "bits_from n cs = [DHT_BREAKTIME <s cs ! i. i \<leftarrow> [0..<length cs], 3 < i + n \<and> even (i + n)]"
proof (induction cs arbitrary: n)
  case Nil
  then show ?case by simp
next
  case (Cons c cs)
  have u: "[0..<length (c # cs)] = 0 # map Suc [0..<length cs]"
    by (simp add: upt_conv_Cons map_Suc_upt del: upt_Suc)
  show ?case
    unfolding u by (simp add: Cons.IH comp_def even_iff_mod_2_eq_zero cong: if_cong)
qed

lemma bits_from_data_bits: "bits_from 0 cs = data_bits cs"
  by (simp add: bits_from_indices data_bits_def)

lemma msb_first_Cons: "msb_first (b # bs) = push_bit (length bs) (of_bool b) + msb_first bs"
  by (simp add: msb_first_def horner_sum_append push_bit_eq_mult)

lemma append_bits_cell:
  "append_bits bs j data k =
     push_bit (length (cell_bits k j bs)) (data k) + msb_first (cell_bits k j bs)"
proof (induction bs arbitrary: j data)
  case Nil
  then show ?case by (simp add: cell_bits_def msb_first_def)
next
  case (Cons b bs)
  let ?data = "data(j div 8 := push_bit 1 (data (j div 8)) + of_bool b)"
  have step: "append_bits (b # bs) j data k =
      push_bit (length (cell_bits k (Suc j) bs)) (?data k) + msb_first (cell_bits k (Suc j) bs)"
    by (simp add: Cons.IH)
  show ?case
  proof (cases "k = j div 8")
    case True
    then have r: "8 * k \<le> j" "j < 8 * Suc k" by auto
    have c: "cell_bits k j (b # bs) = b # cell_bits k (Suc j) bs"
    proof -
      from r obtain m where m: "8 * Suc k - j = Suc m" "m < 8" "8 * Suc k - Suc j = m"
        by (cases "8 * Suc k - j") auto
      have z: "8 * k - j = 0" "8 * k - Suc j = 0" using r by auto
      have mn: "min 8 (Suc m) = Suc m" "min 8 m = m" using m(2) by auto
      show ?thesis unfolding cell_bits_def m z mn by simp
    qed
    show ?thesis
      unfolding step c using True
      by (simp add: msb_first_Cons push_bit_add algebra_simps flip: push_bit_Suc)
  next
    case False
    then have r: "j < 8 * k \<or> 8 * Suc k \<le> j" by auto
    have c: "cell_bits k j (b # bs) = cell_bits k (Suc j) bs"
      using r
    proof
      assume "j < 8 * k"
      then obtain m where "8 * k - j = Suc m" "8 * k - Suc j = m" by (cases "8 * k - j") auto
      moreover have "min 8 (8 * Suc k - j) = 8" "min 8 (8 * Suc k - Suc j) = 8"
        using \<open>j < 8 * k\<close> by auto
      ultimately show ?thesis by (simp add: cell_bits_def)
    next
      assume "8 * Suc k \<le> j"
      then show ?thesis by (simp add: cell_bits_def)
    qed
    show ?thesis unfolding step c using False by simp
  qed
qed

lemma cell_bits_0: "cell_bits k 0 bs = byte_bits k bs"
  by (simp add: cell_bits_def byte_bits_def)

lemma data_bits_first:
  assumes "4 < length ds"
  shows "data_bits ds \<noteq> [] \<and> hd (data_bits ds) = (DHT_BREAKTIME <s ds ! 4)"
proof -
  obtain a r1 where 1: "ds = a # r1" "3 < length r1" using assms by (cases ds) auto
  obtain b r2 where 2: "r1 = b # r2" "2 < length r2" using 1(2) by (cases r1) auto
  obtain c r3 where 3: "r2 = c # r3" "1 < length r3" using 2(2) by (cases r2) auto
  obtain d r4 where 4: "r3 = d # r4" "0 < length r4" using 3(2) by (cases r3) auto
  obtain e rest where 5: "r4 = e # rest" using 4(2) by (cases r4) auto
  have ds: "ds = a # b # c # d # e # rest" by (simp add: 1 2 3 4 5)
  show ?thesis unfolding ds bits_from_data_bits [symmetric] by simp
qed

lemma msb_first_byte:
  assumes "length bs \<le> 8"
  shows "unat (msb_first bs) < 256"
proof -
  have "take_bit 8 (msb_first bs) = msb_first bs"
    by (rule bit_eqI) (use assms in \<open>auto simp: msb_first_def bit_simps\<close>)
  then have "unat (msb_first bs) = take_bit 8 (unat (msb_first bs))"
    by (metis unsigned_take_bit_eq)
  also have "\<dots> < 2 ^ 8" by (rule take_bit_nat_less_exp)
  finally show ?thesis by simp
qed

lemma capture_gives_bytes:
  assumes "capture line 0 True 0 (data_init stack) t = Inr (j, data)"
  shows "\<forall>k<5. unat (data k) < 256"
proof (intro allI impI)
  fix k :: nat
  assume k: "k < 5"
  let ?bits = "bits_from 0 (transitions line 0 True t)"
  have z: "data_init stack k = 0" using k by (auto simp: data_init_def)
  have "data k = msb_first (cell_bits k 0 ?bits)"
    using capture_trace [OF assms] by (simp add: append_bits_cell z)
  moreover have "length (cell_bits k 0 ?bits) \<le> 8" by (simp add: cell_bits_def)
  ultimately show "unat (data k) < 256" by (simp add: msb_first_byte)
qed

lemma comprehension_filter:
  "concat (map (\<lambda>x. if P x then [f x] else []) xs) = map f (filter P xs)"
  by (induction xs) simp_all

lemma selected_indices:
  "filter (\<lambda>i. 3 < i \<and> even i) [0..<m] = map (\<lambda>n. 4 + 2 * n) [0..<(m - 3) div 2]"
proof (induction m)
  case 0
  then show ?case by simp
next
  case (Suc m)
  let ?P = "\<lambda>i :: nat. 3 < i \<and> even i" and ?g = "\<lambda>n :: nat. 4 + 2 * n"
  have split: "filter ?P [0..<Suc m] = map ?g [0..<(m - 3) div 2] @ (if ?P m then [m] else [])"
    using Suc.IH by simp
  show ?case
  proof (cases "3 < m \<and> m mod 2 = 0")
    case True
    have e: "(Suc m - 3) div 2 = Suc ((m - 3) div 2)"
      using bit_count_selected [OF True] by simp
    have l: "m = ?g ((m - 3) div 2)" using True by presburger
    have P: "?P m" using True by (simp add: even_iff_mod_2_eq_zero)
    have "filter ?P [0..<Suc m] = map ?g [0..<(m - 3) div 2] @ [?g ((m - 3) div 2)]"
      using split P l by simp
    also have "\<dots> = map ?g [0..<Suc ((m - 3) div 2)]" by simp
    finally show ?thesis unfolding e .
  next
    case False
    have e: "(Suc m - 3) div 2 = (m - 3) div 2"
      using bit_count_skipped [OF False] by simp
    have P: "\<not> ?P m" using False by (simp add: even_iff_mod_2_eq_zero)
    show ?thesis unfolding e using split P by simp
  qed
qed

lemma data_bits_indices:
  "data_bits ds = map (\<lambda>n. DHT_BREAKTIME <s ds ! (4 + 2 * n)) [0..<(length ds - 3) div 2]"
  by (simp add: data_bits_def comprehension_filter selected_indices comp_def)

lemma data_bits_nth:
  assumes "4 + 2 * n < length ds"
  shows "n < length (data_bits ds) \<and> data_bits ds ! n = (DHT_BREAKTIME <s ds ! (4 + 2 * n))"
proof -
  have n: "n < (length ds - 3) div 2" using assms by presburger
  then show ?thesis by (simp add: data_bits_indices)
qed

lemma bit_msb_first:
  assumes "p < length bs" and "length bs \<le> 8"
  shows "bit (msb_first bs) p = bs ! (length bs - Suc p)"
  using assms by (simp add: msb_first_def bit_horner_sum_bit_word_iff rev_nth)

lemma bit_shifted_plus:
  assumes "p < length bs" and "length bs \<le> 8"
  shows "bit (push_bit (length bs) (x :: int32) + msb_first bs) p = bit (msb_first bs) p"
proof -
  have "push_bit (length bs) x AND msb_first bs = 0"
    by (rule bit_eqI) (auto simp: msb_first_def bit_simps)
  then have "push_bit (length bs) x + msb_first bs = push_bit (length bs) x OR msb_first bs"
    by (rule disjunctive_add_eq_or)
  then show ?thesis using assms(1) by (simp add: bit_simps)
qed

lemma capture_bit:
  assumes cap: "capture line 0 True 0 (data_init stack) t = Inr (j, data)"
    and sel: "4 + 2 * n < length (transitions line 0 True t)"
  shows "n < j \<and>
    bit (data (n div 8)) (min 8 (j - 8 * (n div 8)) - Suc (n mod 8))
      = (20 < sint (transitions line 0 True t ! (4 + 2 * n)))"
proof -
  let ?tr = "transitions line 0 True t"
  let ?bits = "data_bits ?tr"
  let ?k = "n div 8"
  let ?seg = "byte_bits ?k ?bits"
  from capture_trace [OF cap]
  have j: "j = length ?bits" and d: "data = append_bits ?bits 0 (data_init stack)"
    by (simp_all add: bits_from_data_bits)
  from data_bits_nth [OF sel]
  have n: "n < length ?bits" and b: "?bits ! n = (DHT_BREAKTIME <s ?tr ! (4 + 2 * n))"
    by simp_all
  have len: "length ?seg = min 8 (j - 8 * ?k)"
    by (simp add: byte_bits_def j min_def)
  have dm: "8 * ?k + n mod 8 = n" by simp
  have "n mod 8 < 8" by simp
  moreover have "n mod 8 < j - 8 * ?k" using dm n j by linarith
  ultimately have m: "n mod 8 < length ?seg"
    unfolding len by simp
  have le: "length ?seg \<le> 8" by (simp add: byte_bits_def)
  let ?p = "length ?seg - Suc (n mod 8)"
  have p: "?p < length ?seg" using m by simp
  have idx: "length ?seg - Suc ?p = n mod 8" using m by simp
  have "data ?k = push_bit (length ?seg) (data_init stack ?k) + msb_first ?seg"
    unfolding d by (simp add: append_bits_cell cell_bits_0)
  then have "bit (data ?k) ?p = bit (msb_first ?seg) ?p"
    by (simp only: bit_shifted_plus [OF p le])
  also have "\<dots> = ?seg ! (n mod 8)"
    by (simp only: bit_msb_first [OF p le] idx)
  also have "\<dots> = ?bits ! (8 * ?k + n mod 8)"
    using m by (simp add: byte_bits_def)
  also have "\<dots> = ?bits ! n" by (simp only: dm)
  also have "\<dots> = (20 < sint (?tr ! (4 + 2 * n)))"
    by (simp add: b word_sless_alt)
  finally show ?thesis using n j by (simp add: len)
qed

section \<open>The loop along the four lines\<close>

lemma capture_demo_line:
  "capture demo_line 0 True 0 (data_init stack) 1 = Inr (3, (data_init stack)(0 := 5))"
proof -
  let ?d = "data_init stack"
  have d0: "?d 0 = 0" by (simp add: data_init_def)
  have "capture demo_line 0 True 0 ?d 1 = capture demo_line 1 False 0 ?d 3"
    by (rule capture_step [where n = 0]) (auto simp: demo_line_def store_transition_def)
  also have "\<dots> = capture demo_line 2 True 0 ?d 7"
    by (rule capture_step [where n = 2]) (auto simp: demo_line_def store_transition_def)
  also have "\<dots> = capture demo_line 3 False 0 ?d 12"
    by (rule capture_step [where n = 3]) (auto simp: demo_line_def store_transition_def)
  also have "\<dots> = capture demo_line 4 True 0 ?d 16"
    by (rule capture_step [where n = 2]) (auto simp: demo_line_def store_transition_def)
  also have "\<dots> = capture demo_line 5 False 1 (?d(0 := 1)) 46"
    by (rule capture_step [where n = 28])
      (auto simp: demo_line_def store_transition_def store_bit_plus d0 word_sless_alt)
  also have "\<dots> = capture demo_line 6 True 1 (?d(0 := 1)) 50"
    by (rule capture_step [where n = 2]) (auto simp: demo_line_def store_transition_def)
  also have "\<dots> = capture demo_line 7 False 2 (?d(0 := 2)) 60"
    by (rule capture_step [where n = 8])
      (auto simp: demo_line_def store_transition_def store_bit_plus word_sless_alt)
  also have "\<dots> = capture demo_line 8 True 2 (?d(0 := 2)) 64"
    by (rule capture_step [where n = 2]) (auto simp: demo_line_def store_transition_def)
  also have "\<dots> = capture demo_line 9 False 3 (?d(0 := 5)) 94"
    by (rule capture_step [where n = 28])
      (auto simp: demo_line_def store_transition_def store_bit_plus word_sless_alt)
  also have "\<dots> = Inr (3, ?d(0 := 5))"
    by (rule capture_stall) (auto simp: demo_line_def)
  finally show ?thesis .
qed

lemma capture_boundary_line:
  "capture boundary_line 0 True 0 (data_init stack) 1 = Inr (2, (data_init stack)(0 := 1))"
proof -
  let ?d = "data_init stack"
  have d0: "?d 0 = 0" by (simp add: data_init_def)
  have z: "?d(0 := 0) = ?d" using d0 by (metis fun_upd_triv)
  have "capture boundary_line 0 True 0 ?d 1 = capture boundary_line 1 False 0 ?d 3"
    by (rule capture_step [where n = 0]) (auto simp: boundary_line_def store_transition_def)
  also have "\<dots> = capture boundary_line 2 True 0 ?d 7"
    by (rule capture_step [where n = 2]) (auto simp: boundary_line_def store_transition_def)
  also have "\<dots> = capture boundary_line 3 False 0 ?d 12"
    by (rule capture_step [where n = 3]) (auto simp: boundary_line_def store_transition_def)
  also have "\<dots> = capture boundary_line 4 True 0 ?d 16"
    by (rule capture_step [where n = 2]) (auto simp: boundary_line_def store_transition_def)
  also have "\<dots> = capture boundary_line 5 False 1 ?d 38"
    by (rule capture_step [where n = 20])
      (auto simp: boundary_line_def store_transition_def store_bit_plus d0 z word_sless_alt)
  also have "\<dots> = capture boundary_line 6 True 1 ?d 42"
    by (rule capture_step [where n = 2]) (auto simp: boundary_line_def store_transition_def)
  also have "\<dots> = capture boundary_line 7 False 2 (?d(0 := 1)) 65"
    by (rule capture_step [where n = 21])
      (auto simp: boundary_line_def store_transition_def store_bit_plus d0 word_sless_alt)
  also have "\<dots> = Inr (2, ?d(0 := 1))"
    by (rule capture_stall) (auto simp: boundary_line_def)
  finally show ?thesis .
qed

lemma transitions_boundary_line:
  "transitions boundary_line 0 True 1 = [0, 2, 3, 2, 20, 2, 21]"
proof -
  have t0: "transitions boundary_line 0 True 1 = 0 # transitions boundary_line 1 False 3"
    by (rule transitions_step [where n = 0]) (auto simp: boundary_line_def)
  have t1: "transitions boundary_line 1 False 3 = 2 # transitions boundary_line 2 True 7"
    by (rule transitions_step [where n = 2]) (auto simp: boundary_line_def)
  have t2: "transitions boundary_line 2 True 7 = 3 # transitions boundary_line 3 False 12"
    by (rule transitions_step [where n = 3]) (auto simp: boundary_line_def)
  have t3: "transitions boundary_line 3 False 12 = 2 # transitions boundary_line 4 True 16"
    by (rule transitions_step [where n = 2]) (auto simp: boundary_line_def)
  have t4: "transitions boundary_line 4 True 16 = 20 # transitions boundary_line 5 False 38"
    by (rule transitions_step [where n = 20]) (auto simp: boundary_line_def)
  have t5: "transitions boundary_line 5 False 38 = 2 # transitions boundary_line 6 True 42"
    by (rule transitions_step [where n = 2]) (auto simp: boundary_line_def)
  have t6: "transitions boundary_line 6 True 42 = 21 # transitions boundary_line 7 False 65"
    by (rule transitions_step [where n = 21]) (auto simp: boundary_line_def)
  have t7: "transitions boundary_line 7 False 65 = []"
    by (rule transitions_stall) (auto simp: boundary_line_def)
  show ?thesis by (simp only: t0 t1 t2 t3 t4 t5 t6 t7)
qed

lemma count_time_boundary_line: "count_time boundary_line True 0 16 = (20, 37)"
  using count_time_exact [where n = 20 and line = boundary_line and t = 16 and laststate = True]
  by (auto simp: boundary_line_def)

lemma toggling_overruns:
  "even t \<Longrightarrow> i \<le> 1604 \<Longrightarrow> j = (i - 3) div 2 \<Longrightarrow>
   capture toggling i True j data t = Inl (BufferOverrun 100)"
proof (induction "1604 - i" arbitrary: i j data t)
  case 0
  then have i: "i = 1604" and j: "j = 800" by simp_all
  show ?case
    by (rule capture_overrun [where n = 0])
      (use 0 i j in \<open>simp_all add: store_transition_def toggling_def\<close>)
next
  case (Suc n)
  then have i: "i < 1604" by simp
  let ?j = "(Suc i - 3) div 2"
  obtain data' where st: "store_transition i (of_nat 0) j data = Inr (?j, data')"
  proof (cases "3 < i \<and> i mod 2 = 0")
    case True
    then have "j div 8 < 100" using i Suc.prems(3) by auto
    moreover have "Suc j = ?j" using Suc.prems(3) bit_count_selected [OF True] by simp
    ultimately show ?thesis using True that by (simp add: store_transition_def)
  next
    case False
    then have "j = ?j" using Suc.prems(3) bit_count_skipped [of i] by simp
    then show ?thesis using False that by (auto simp: store_transition_def)
  qed
  have "capture toggling i True j data t = capture toggling (Suc i) True ?j data' (Suc (Suc t))"
    by (rule capture_step [where n = 0, OF _ _ _ _ st])
      (use i Suc.prems(1) in \<open>simp_all add: toggling_def\<close>)
  also have "\<dots> = Inl (BufferOverrun 100)"
    by (rule Suc.hyps(1)) (use Suc.hyps(2) Suc.prems(1) i in simp_all)
  finally show ?case .
qed

lemma toggling_39:
  "i \<le> 81 \<Longrightarrow> t = 2 * i + 2 \<Longrightarrow> j = (i - 3) div 2 \<Longrightarrow> \<forall>k<5. data k = 0 \<Longrightarrow>
   capture short_frame i True j data t = Inr (39, data)"
proof (induction "81 - i" arbitrary: i j data t)
  case 0
  then have i: "i = 81" and t: "t = 164" and j: "j = 39" by simp_all
  have "capture short_frame i True j data t = capture short_frame 82 False 39 data 166"
    by (rule capture_step [where n = 0]) (simp_all add: i t j short_frame_def store_transition_def)
  also have "\<dots> = Inr (39, data)"
    by (rule capture_stall) (simp add: short_frame_def)
  finally show ?case .
next
  case (Suc n)
  then have i: "i < 81" by simp
  let ?j = "(Suc i - 3) div 2"
  have st: "store_transition i (of_nat 0) j data = Inr (?j, data)"
  proof (cases "3 < i \<and> i mod 2 = 0")
    case True
    then have c: "j div 8 < 5" using i Suc.prems(3) by auto
    then have "data (j div 8) = 0" using Suc.prems(4) by simp
    then have "store_bit 0 j data = data(j div 8 := data (j div 8))"
      by (simp add: store_bit_plus word_sless_alt)
    then have "store_bit 0 j data = data" by simp
    moreover have "Suc j = ?j" using Suc.prems(3) bit_count_selected [OF True] by simp
    ultimately show ?thesis using True c by (simp add: store_transition_def)
  next
    case False
    then have "j = ?j" using Suc.prems(3) bit_count_skipped [of i] by simp
    then show ?thesis using False by (auto simp: store_transition_def)
  qed
  have "capture short_frame i True j data t = capture short_frame (Suc i) True ?j data (Suc (Suc t))"
    by (rule capture_step [where n = 0, OF _ _ _ _ st])
      (use i Suc.prems(2) in \<open>simp_all add: short_frame_def\<close>)
  also have "\<dots> = Inr (39, data)"
    by (rule Suc.hyps(1)) (use Suc.hyps(2) Suc.prems i in simp_all)
  finally show ?case .
qed


section \<open>The claims\<close>

text \<open>
  C1. For a capture that reaches the checks after the loop (39 bits or more), the read
  succeeds and writes a reading exactly when \<^verbatim>\<open>data[4]\<close> is the sum of \<^verbatim>\<open>data[0]\<close> to
  \<^verbatim>\<open>data[3]\<close> modulo 256. Otherwise it fails with \<open>ChecksumMismatch\<close>, which carries the
  bit count, \<^verbatim>\<open>data[4]\<close> as the expected value and that sum as the computed one, and
  the output is untouched. The byte \<^verbatim>\<open>raw[k]\<close> of the frame is \<open>unat (data k)\<close>.
\<close>

theorem checksum_decides:
  assumes "39 \<le> j"
  shows "verify fl sensor output j data =
     (if unat (data 4) = (unat (data 0) + unat (data 1) + unat (data 2) + unat (data 3)) mod 256
      then (Success, output\<lparr>temperature := scale_temperature fl (type sensor) data,
                            humidity := scale_humidity fl (type sensor) data\<rparr>)
      else (Failed (ChecksumMismatch j (data 4)
              (of_nat ((unat (data 0) + unat (data 1) + unat (data 2) + unat (data 3)) mod 256))),
            output))"
  using assms by (rule verify_unat)

theorem checksum_decides_witness:
  "(39 :: nat) \<le> 40 \<and>
   verify (\<lambda>x. x) \<lparr>pin = 2, type = DHT22\<rparr> \<lparr>temperature = 0, humidity = 0\<rparr> 40
     ((\<lambda>k. 0)(0 := 0x02, 1 := 0x1A, 2 := 0x01, 3 := 0x05, 4 := 0x22))
     = (Success, \<lparr>temperature = 261 / 10, humidity = 538 / 10\<rparr>) \<and>
   verify (\<lambda>x. x) \<lparr>pin = 2, type = DHT22\<rparr> \<lparr>temperature = 0, humidity = 0\<rparr> 40
     ((\<lambda>k. 0)(0 := 0x02, 1 := 0x1A, 2 := 0x01, 3 := 0x05, 4 := 0x23))
     = (Failed (ChecksumMismatch 40 0x23 0x22), \<lparr>temperature = 0, humidity = 0\<rparr>)"
proof -
  have j: "(39 :: nat) \<le> 40" by simp
  show ?thesis
    using checksum_decides [OF j, of "\<lambda>x. x" "\<lparr>pin = 2, type = DHT22\<rparr>"
        "\<lparr>temperature = 0, humidity = 0\<rparr>"
        "(\<lambda>k. 0)(0 := 0x02, 1 := 0x1A, 2 := 0x01, 3 := 0x05, 4 := 0x22)"]
      checksum_decides [OF j, of "\<lambda>x. x" "\<lparr>pin = 2, type = DHT22\<rparr>"
        "\<lparr>temperature = 0, humidity = 0\<rparr>"
        "(\<lambda>k. 0)(0 := 0x02, 1 := 0x1A, 2 := 0x01, 3 := 0x05, 4 := 0x23)"]
    by (simp add: scale_temperature_def scale_humidity_def)
qed

text \<open>
  C2. For a DHT22 and a frame of five bytes that passes the checksum, the humidity is
  \<open>(raw[0] * 256 + raw[1]) / 10\<close> and the temperature is
  \<open>((raw[2] AND 0x7F) * 256 + raw[3]) / 10\<close>, negated when bit \<open>0x80\<close> of \<open>raw[2]\<close> is
  set: a sign and a magnitude, not two's complement. The quotient is rounded by \<open>fl\<close>;
  the statement holds for every \<open>fl\<close>, the identity among them. Every frame that the
  capture loop delivers is a frame of bytes (lemma \<open>capture_gives_bytes\<close>).
\<close>

theorem dht22_scaling:
  assumes "39 \<le> j" and "type sensor = DHT22" and "\<forall>k<5. unat (data k) < 256"
    and "unat (data 4) = (unat (data 0) + unat (data 1) + unat (data 2) + unat (data 3)) mod 256"
  shows "verify fl sensor output j data =
     (Success, output\<lparr>
        temperature :=
          (if data 2 AND 0x80 \<noteq> 0
           then - fl (real (unat (data 2 AND 0x7F) * 256 + unat (data 3)) / 10)
           else fl (real (unat (data 2 AND 0x7F) * 256 + unat (data 3)) / 10)),
        humidity := fl (real (unat (data 0) * 256 + unat (data 1)) / 10)\<rparr>)"
proof -
  have b: "unat (data 0) < 256" "unat (data 1) < 256" "unat (data 3) < 256"
    using assms(3) by simp_all
  have h: "scale_humidity fl DHT22 data = fl (real (unat (data 0) * 256 + unat (data 1)) / 10)"
    unfolding scale_humidity_def Let_def two_bytes_sint [OF b(1) b(2)] by simp
  have t: "scale_temperature fl DHT22 data =
          (if data 2 AND 0x80 \<noteq> 0
           then - fl (real (unat (data 2 AND 0x7F) * 256 + unat (data 3)) / 10)
           else fl (real (unat (data 2 AND 0x7F) * 256 + unat (data 3)) / 10))"
    unfolding scale_temperature_def Let_def and_7f_sint byte_sint [OF b(3)] by simp
  show ?thesis
    unfolding verify_unat [OF assms(1)] using assms(2,4) by (simp add: h t)
qed

theorem dht22_scaling_witness:
  "verify (\<lambda>x. x) \<lparr>pin = 2, type = DHT22\<rparr> \<lparr>temperature = 0, humidity = 0\<rparr> 40
     ((\<lambda>k. 0)(0 := 0x01, 1 := 0x90, 2 := 0x80, 3 := 0x0A, 4 := 0x1B))
     = (Success, \<lparr>temperature = - 1, humidity = 40\<rparr>)"
proof -
  let ?data = "(\<lambda>k :: nat. 0 :: int32)(0 := 0x01, 1 := 0x90, 2 := 0x80, 3 := 0x0A, 4 := 0x1B)"
  have j: "(39 :: nat) \<le> 40" by simp
  have ty: "type \<lparr>pin = 2, type = DHT22\<rparr> = DHT22" by simp
  have b: "\<forall>k<5. unat (?data k) < 256" by simp
  have c: "unat (?data 4) = (unat (?data 0) + unat (?data 1) + unat (?data 2) + unat (?data 3)) mod 256"
    by simp
  show ?thesis
    by (subst dht22_scaling [OF j ty b c]) simp
qed

text \<open>
  C3. For a DHT11 and bytes \<open>h\<close> and \<open>t\<close>, the frame \<open>[h, 0, t, 0, (h + t) mod 256]\<close>
  gives the humidity \<open>h\<close> and the temperature \<open>t\<close>. More generally every frame of
  five bytes that passes the checksum gives \<open>raw[0]\<close> and \<open>raw[2]\<close>, whatever \<open>raw[1]\<close>
  and \<open>raw[3]\<close> are.
\<close>

theorem dht11_pass_through:
  "(\<forall>h t. h < 256 \<and> t < 256 \<and> 39 \<le> j \<longrightarrow>
      verify fl \<lparr>pin = p, type = DHT11\<rparr> output j
        (stack(0 := of_nat h, 1 := 0, 2 := of_nat t, 3 := 0, 4 := of_nat ((h + t) mod 256)))
      = (Success, output\<lparr>temperature := real t, humidity := real h\<rparr>)) \<and>
   (39 \<le> j \<and> (\<forall>k<5. unat (data k) < 256) \<and>
    unat (data 4) = (unat (data 0) + unat (data 1) + unat (data 2) + unat (data 3)) mod 256 \<longrightarrow>
      verify fl \<lparr>pin = p, type = DHT11\<rparr> output j data
      = (Success, output\<lparr>temperature := real (unat (data 2)),
                           humidity := real (unat (data 0))\<rparr>))"
proof -
  have general: "verify fl \<lparr>pin = p, type = DHT11\<rparr> output j d
      = (Success, output\<lparr>temperature := real (unat (d 2)), humidity := real (unat (d 0))\<rparr>)"
    if j: "39 \<le> j" and b0: "unat (d 0) < 256" and b2: "unat (d 2) < 256"
      and c: "unat (d 4) = (unat (d 0) + unat (d 1) + unat (d 2) + unat (d 3)) mod 256"
    for d
  proof -
    have h: "scale_humidity fl DHT11 d = real (unat (d 0))"
      unfolding scale_humidity_def byte_sint [OF b0] by simp
    have t: "scale_temperature fl DHT11 d = real (unat (d 2))"
      unfolding scale_temperature_def byte_sint [OF b2] by simp
    show ?thesis
      unfolding verify_unat [OF j] using c by (simp add: h t)
  qed
  have frame: "verify fl \<lparr>pin = p, type = DHT11\<rparr> output j
        (stack(0 := of_nat h, 1 := 0, 2 := of_nat t, 3 := 0, 4 := of_nat ((h + t) mod 256)))
      = (Success, output\<lparr>temperature := real t, humidity := real h\<rparr>)"
    if "h < 256" "t < 256" "39 \<le> j" for h t
  proof -
    let ?d = "stack(0 := of_nat h, 1 := 0, 2 := of_nat t, 3 := 0, 4 := of_nat ((h + t) mod 256))"
    have u: "unat (?d 0) = h" "unat (?d 1) = 0" "unat (?d 2) = t" "unat (?d 3) = 0"
      "unat (?d 4) = (h + t) mod 256"
      using that by (simp_all add: unat_byte)
    have "verify fl \<lparr>pin = p, type = DHT11\<rparr> output j ?d
      = (Success, output\<lparr>temperature := real (unat (?d 2)), humidity := real (unat (?d 0))\<rparr>)"
      by (rule general) (use that u in simp_all)
    then show ?thesis unfolding u .
  qed
  show ?thesis using general frame by simp
qed

theorem dht11_pass_through_witness:
  "verify (\<lambda>x. x) \<lparr>pin = 2, type = DHT11\<rparr> \<lparr>temperature = 0, humidity = 0\<rparr> 40
     ((\<lambda>k. 0)(0 := 55, 1 := 0, 2 := 23, 3 := 0, 4 := 78))
     = (Success, \<lparr>temperature = 23, humidity = 55\<rparr>) \<and>
   verify (\<lambda>x. x) \<lparr>pin = 2, type = DHT11\<rparr> \<lparr>temperature = 0, humidity = 0\<rparr> 40
     ((\<lambda>k. 0)(0 := 55, 1 := 9, 2 := 23, 3 := 7, 4 := 94))
     = (Success, \<lparr>temperature = 23, humidity = 55\<rparr>)"
proof -
  let ?s = "\<lparr>pin = 2, type = DHT11\<rparr>" and ?out = "\<lparr>temperature = 0, humidity = 0\<rparr>"
  let ?d = "(\<lambda>k :: nat. 0 :: int32)(0 := 55, 1 := 9, 2 := 23, 3 := 7, 4 := 94)"
  have a: "(55 :: nat) < 256 \<and> (23 :: nat) < 256 \<and> (39 :: nat) \<le> 40" by simp
  have b: "(39 :: nat) \<le> 40 \<and> (\<forall>k<5. unat (?d k) < 256) \<and>
    unat (?d 4) = (unat (?d 0) + unat (?d 1) + unat (?d 2) + unat (?d 3)) mod 256"
    by simp
  note frame = dht11_pass_through [of 40 "\<lambda>x. x" 2 ?out "\<lambda>k. 0" ?d,
      THEN conjunct1, rule_format, OF a]
  note general = dht11_pass_through [of 40 "\<lambda>x. x" 2 ?out "\<lambda>k. 0" ?d,
      THEN conjunct2, rule_format, OF b]
  have "verify (\<lambda>x. x) ?s ?out 40 ((\<lambda>k. 0)(0 := 55, 1 := 0, 2 := 23, 3 := 0, 4 := 78))
     = (Success, \<lparr>temperature = 23, humidity = 55\<rparr>)"
    using frame by simp
  moreover have "verify (\<lambda>x. x) ?s ?out 40 ?d = (Success, \<lparr>temperature = 23, humidity = 55\<rparr>)"
    by (subst general) simp
  ultimately show ?thesis by simp
qed

text \<open>
  C7. The bit that the store of a selected transition appends is the lowest bit of the
  byte of bit \<^verbatim>\<open>j\<close> after the store, and it is 1 exactly when the counter is greater
  than 20: a counter of 20 appends 0, a counter of 21 appends 1. In the capture loop, a
  transition that ends before 1000 polls and whose index is greater than 3 and even
  stores the bit of the counter that the inner loop has just measured and moves on to
  bit \<^verbatim>\<open>j + 1\<close>. When the loop ends without leaving the array, every completed
  transition of index \<open>4 + 2 * n\<close> has stored bit \<open>n\<close>, and that bit, read back from
  its place in the array (the bits of a byte lie with the first one highest), is 1
  exactly when the measured duration of that transition is greater than 20.
\<close>

theorem breaktime_decides_bit:
  "store_bit counter j data (j div 8) =
     push_bit 1 (data (j div 8)) OR (if DHT_BREAKTIME <s counter then 1 else 0) \<and>
   bit (store_bit counter j data (j div 8)) 0 = (20 < sint counter) \<and>
   store_bit 20 j data (j div 8) = push_bit 1 (data (j div 8)) \<and>
   \<not> bit (store_bit 20 j data (j div 8)) 0 \<and>
   store_bit 21 j data (j div 8) = push_bit 1 (data (j div 8)) OR 1 \<and>
   bit (store_bit 21 j data (j div 8)) 0 \<and>
   (3 < i \<and> i mod 2 = 0 \<and> j div 8 < 100 \<longrightarrow>
      store_transition i counter j data = Inr (Suc j, store_bit counter j data)) \<and>
   (i < DHT_MAXTIMINGS \<and> 3 < i \<and> i mod 2 = 0 \<and> j div 8 < 100 \<and>
    count_time line laststate 0 t = (counter, t1) \<and> counter \<noteq> 1000 \<longrightarrow>
      capture line i laststate j data t
        = capture line (Suc i) (line t1) (Suc j) (store_bit counter j data) (Suc t1)) \<and>
   (capture line 0 True 0 (data_init stack) t0 = Inr (j', data') \<longrightarrow>
      (\<forall>n. 4 + 2 * n < length (transitions line 0 True t0) \<longrightarrow>
         n < j' \<and>
         bit (data' (n div 8)) (min 8 (j' - 8 * (n div 8)) - Suc (n mod 8))
           = (20 < sint (transitions line 0 True t0 ! (4 + 2 * n)))))"
proof -
  have cell: "store_bit counter j data (j div 8) =
       push_bit 1 (data (j div 8)) OR (if DHT_BREAKTIME <s counter then 1 else 0) \<and>
     bit (store_bit counter j data (j div 8)) 0 = (20 < sint counter) \<and>
     store_bit 20 j data (j div 8) = push_bit 1 (data (j div 8)) \<and>
     \<not> bit (store_bit 20 j data (j div 8)) 0 \<and>
     store_bit 21 j data (j div 8) = push_bit 1 (data (j div 8)) OR 1 \<and>
     bit (store_bit 21 j data (j div 8)) 0"
    by (simp add: store_bit_def Let_def word_sless_alt bit_0 even_or_iff)
  have step: "store_transition i counter j data = Inr (Suc j, store_bit counter j data)"
    if "3 < i \<and> i mod 2 = 0 \<and> j div 8 < 100"
    using that by (simp add: store_transition_def)
  have loop: "capture line i laststate j data t
        = capture line (Suc i) (line t1) (Suc j) (store_bit counter j data) (Suc t1)"
    if "i < DHT_MAXTIMINGS \<and> 3 < i \<and> i mod 2 = 0 \<and> j div 8 < 100 \<and>
      count_time line laststate 0 t = (counter, t1) \<and> counter \<noteq> 1000"
    using that by (subst capture_unfold) simp
  have final: "n < j' \<and>
         bit (data' (n div 8)) (min 8 (j' - 8 * (n div 8)) - Suc (n mod 8))
           = (20 < sint (transitions line 0 True t0 ! (4 + 2 * n)))"
    if "capture line 0 True 0 (data_init stack) t0 = Inr (j', data')"
      and "4 + 2 * n < length (transitions line 0 True t0)" for n
    using that by (rule capture_bit)
  show ?thesis using cell step loop final by blast
qed

theorem breaktime_decides_bit_witness:
  "transitions boundary_line 0 True 1 = [0, 2, 3, 2, 20, 2, 21] \<and>
   capture boundary_line 0 True 0 (data_init (\<lambda>k. 7)) 1 = Inr (2, (data_init (\<lambda>k. 7))(0 := 1)) \<and>
   bit (((data_init (\<lambda>k. 7))(0 := 1)) 0) 1 = (20 < sint (20 :: int32)) \<and>
   bit (((data_init (\<lambda>k. 7))(0 := 1)) 0) 0 = (20 < sint (21 :: int32)) \<and>
   store_transition 4 20 0 (data_init (\<lambda>k. 7)) = Inr (1, store_bit 20 0 (data_init (\<lambda>k. 7))) \<and>
   count_time boundary_line True 0 16 = (20, 37) \<and>
   capture boundary_line 4 True 0 (data_init (\<lambda>k. 7)) 16
     = capture boundary_line 5 False 1 (store_bit 20 0 (data_init (\<lambda>k. 7))) 38"
proof -
  let ?d = "data_init (\<lambda>k. 7)"
  note tr = transitions_boundary_line
  note cap = capture_boundary_line [of "\<lambda>k. 7"]
  note ct = count_time_boundary_line
  note inst = breaktime_decides_bit [where i = 4 and j = 0 and counter = 20 and data = ?d
      and line = boundary_line and laststate = True and t = 16 and ?t1.0 = 37
      and stack = "\<lambda>k. 7" and ?t0.0 = 1 and j' = 2 and data' = "?d(0 := 1)"]
  note parts = inst [THEN conjunct2, THEN conjunct2, THEN conjunct2, THEN conjunct2,
      THEN conjunct2, THEN conjunct2]
  have s: "store_transition 4 20 0 ?d = Inr (1, store_bit 20 0 ?d)"
    using parts [THEN conjunct1] by simp
  have l: "capture boundary_line 4 True 0 ?d 16
     = capture boundary_line 5 False 1 (store_bit 20 0 ?d) 38"
    using parts [THEN conjunct2, THEN conjunct1] ct by (simp add: boundary_line_def)
  note fin = parts [THEN conjunct2, THEN conjunct2, rule_format, OF cap]
  have b0: "bit ((?d(0 := 1)) 0) 1 = (20 < sint (20 :: int32))"
    using fin [of 0] by (simp add: tr)
  have b1: "bit ((?d(0 := 1)) 0) 0 = (20 < sint (21 :: int32))"
    using fin [of 1] by (simp add: tr)
  show ?thesis using tr cap s l b0 b1 ct by simp
qed

text \<open>
  C6. When the first 32000 reads of the pin after the handshake are all high, the wait
  loop ends with \<^verbatim>\<open>i\<close> = 32000, that is after exactly 32000 polls of one microsecond,
  and the read fails with \<open>Timeout\<close>, the output untouched. When the pin first reads
  low at read \<open>k\<close> below 32000, the loop ends with \<^verbatim>\<open>i\<close> = \<open>k\<close> and the read is what
  the capture loop and the checks after it make of the line; it is no \<open>Timeout\<close>.
  (The loop reads the pin once more when \<^verbatim>\<open>i\<close> is 32000; that read does not change
  the outcome, which the first part states for any level of it.)
\<close>

theorem wait_times_out_or_captures:
  "((\<forall>k<DHT_MAXCOUNT. line k) \<longrightarrow>
      wait_for_drop line 0 0 = (DHT_MAXCOUNT, Suc DHT_MAXCOUNT) \<and>
      dht_read fl stack sensor output line = Inr (Failed Timeout, output)) \<and>
   (\<forall>k<DHT_MAXCOUNT. \<not> line k \<and> (\<forall>m<k. line m) \<longrightarrow>
      wait_for_drop line 0 0 = (k, Suc k) \<and>
      dht_read fl stack sensor output line =
        (case capture line 0 True 0 (data_init stack) (Suc k) of
           Inl e \<Rightarrow> Inl e
         | Inr (j, data) \<Rightarrow> Inr (verify fl sensor output j data)) \<and>
      (\<forall>output'. dht_read fl stack sensor output line \<noteq> Inr (Failed Timeout, output')))"
proof (intro conjI impI allI)
  assume high: "\<forall>k<DHT_MAXCOUNT. line k"
  then show w: "wait_for_drop line 0 0 = (DHT_MAXCOUNT, Suc DHT_MAXCOUNT)"
    by (rule wait_timeout)
  show "dht_read fl stack sensor output line = Inr (Failed Timeout, output)"
    by (simp add: dht_read_def w)
next
  fix k
  assume "k < DHT_MAXCOUNT" and "\<not> line k \<and> (\<forall>m<k. line m)"
  then show w: "wait_for_drop line 0 0 = (k, Suc k)"
    by (simp add: wait_drop)
  from \<open>k < DHT_MAXCOUNT\<close>
  show r: "dht_read fl stack sensor output line =
        (case capture line 0 True 0 (data_init stack) (Suc k) of
           Inl e \<Rightarrow> Inl e
         | Inr (j, data) \<Rightarrow> Inr (verify fl sensor output j data))"
    by (simp add: dht_read_def w)
  fix output'
  show "dht_read fl stack sensor output line \<noteq> Inr (Failed Timeout, output')"
    unfolding r by (auto simp: verify_not_Timeout split: sum.splits)
qed

theorem wait_times_out_or_captures_witness:
  "wait_for_drop (\<lambda>k. True) 0 0 = (32000, 32001) \<and>
   dht_read (\<lambda>x. x) (\<lambda>k. 0) \<lparr>pin = 2, type = DHT22\<rparr>
     \<lparr>temperature = 1, humidity = 2\<rparr> (\<lambda>k. True)
     = Inr (Failed Timeout, \<lparr>temperature = 1, humidity = 2\<rparr>) \<and>
   wait_for_drop (\<lambda>k. k < 7) 0 0 = (7, 8) \<and>
   dht_read (\<lambda>x. x) (\<lambda>k. 0) \<lparr>pin = 2, type = DHT22\<rparr>
     \<lparr>temperature = 1, humidity = 2\<rparr> (\<lambda>k. k < 7)
     \<noteq> Inr (Failed Timeout, \<lparr>temperature = 1, humidity = 2\<rparr>)"
proof -
  let ?s = "\<lparr>pin = 2, type = DHT22\<rparr>" and ?out = "\<lparr>temperature = 1, humidity = 2\<rparr>"
  note high = wait_times_out_or_captures [of "\<lambda>k. True" "\<lambda>x. x" "\<lambda>k. 0" ?s ?out,
      THEN conjunct1, rule_format]
  have p1: "(7 :: nat) < DHT_MAXCOUNT" and p2: "\<not> (7 :: nat) < 7 \<and> (\<forall>m<7. m < (7 :: nat))"
    by simp_all
  note drop = wait_times_out_or_captures [of "\<lambda>k. k < 7" "\<lambda>x. x" "\<lambda>k. 0" ?s ?out,
      THEN conjunct2, rule_format, of 7, OF p1 p2]
  have "wait_for_drop (\<lambda>k. True) 0 0 = (32000, 32001) \<and>
    dht_read (\<lambda>x. x) (\<lambda>k. 0) ?s ?out (\<lambda>k. True) = Inr (Failed Timeout, ?out)"
    using high by simp
  moreover have "wait_for_drop (\<lambda>k. k < 7) 0 0 = (7, 8)"
    using drop [THEN conjunct1] by simp
  moreover have "dht_read (\<lambda>x. x) (\<lambda>k. 0) ?s ?out (\<lambda>k. k < 7) \<noteq> Inr (Failed Timeout, ?out)"
    by (rule drop [THEN conjunct2, THEN conjunct2, rule_format])
  ultimately show ?thesis by simp
qed

text \<open>
  C5. When the wait loop does not time out and the capture loop ends with fewer than 39
  bits, the read fails with \<open>InsufficientBits\<close>, which carries the number of bits
  collected; no reading is written.
\<close>

theorem too_few_bits:
  assumes "wait_for_drop line 0 0 = (i, t)" and "i \<noteq> DHT_MAXCOUNT"
    and "capture line 0 True 0 (data_init stack) t = Inr (j, data)" and "j < 39"
  shows "dht_read fl stack sensor output line = Inr (Failed (InsufficientBits j), output)"
  using assms by (simp add: dht_read_def verify_def)

theorem too_few_bits_witness:
  "wait_for_drop (\<lambda>k. False) 0 0 = (0, 1) \<and>
   capture (\<lambda>k. False) 0 True 0 (data_init (\<lambda>k. 0)) 1 = Inr (0, data_init (\<lambda>k. 0)) \<and>
   dht_read (\<lambda>x. x) (\<lambda>k. 0) \<lparr>pin = 2, type = DHT22\<rparr>
     \<lparr>temperature = 1, humidity = 2\<rparr> (\<lambda>k. False)
     = Inr (Failed (InsufficientBits 0), \<lparr>temperature = 1, humidity = 2\<rparr>)"
proof -
  have w: "wait_for_drop (\<lambda>k. False) 0 0 = (0, 1)"
    using wait_drop [of 0 "\<lambda>k. False"] by simp
  have c: "capture (\<lambda>k. False) 0 True 0 (data_init (\<lambda>k. 0)) 1 = Inr (0, data_init (\<lambda>k. 0))"
    using capture_line_low [of "data_init (\<lambda>k. 0)"] by simp
  show ?thesis
    using w c too_few_bits [OF w _ c, of "\<lambda>x. x" "\<lparr>pin = 2, type = DHT22\<rparr>"
        "\<lparr>temperature = 1, humidity = 2\<rparr>"]
    by simp
qed

text \<open>
  C9. Whenever the read returns false, whatever the failure, the output structure is the
  one the caller passed in.
\<close>

theorem failure_keeps_output:
  assumes "dht_read fl stack sensor output line = Inr (Failed f, output')"
  shows "output' = output"
  using assms
  by (auto simp: dht_read_def verify_def Let_def split: prod.splits if_splits sum.splits)

theorem failure_keeps_output_witness:
  "\<exists>output'. dht_read (\<lambda>x. x) (\<lambda>k. 0) \<lparr>pin = 2, type = DHT22\<rparr>
     \<lparr>temperature = 1, humidity = 2\<rparr> (\<lambda>k. True) = Inr (Failed Timeout, output') \<and>
     output' = \<lparr>temperature = 1, humidity = 2\<rparr>"
proof -
  have w: "wait_for_drop (\<lambda>k. True) 0 0 = (DHT_MAXCOUNT, Suc DHT_MAXCOUNT)"
    by (rule wait_timeout) simp
  obtain r where r: "dht_read (\<lambda>x. x) (\<lambda>k. 0) \<lparr>pin = 2, type = DHT22\<rparr>
     \<lparr>temperature = 1, humidity = 2\<rparr> (\<lambda>k. True) = Inr (Failed Timeout, r)"
    by (simp add: dht_read_def w)
  from failure_keeps_output [OF r] r show ?thesis by simp
qed

text \<open>
  C8. When the capture loop ends without leaving the array, \<^verbatim>\<open>j\<close> is the number of
  transitions it completed whose index is greater than 3 and even, and the cells hold
  the bits of these transitions, eight to a cell in order, the first bit of a cell as
  its most significant one: each of the five zeroed cells holds exactly the value of
  its bits, any cell holds its old contents shifted left by the number of its bits plus
  that value. The first bit comes from the transition of index 4.
\<close>

theorem capture_packs_msb_first:
  assumes "capture line 0 True 0 (data_init stack) t = Inr (j, data)"
  shows "j = length (data_bits (transitions line 0 True t)) \<and>
    (\<forall>k<5. data k = msb_first (byte_bits k (data_bits (transitions line 0 True t)))) \<and>
    (\<forall>k. data k =
       push_bit (length (byte_bits k (data_bits (transitions line 0 True t)))) (data_init stack k)
       + msb_first (byte_bits k (data_bits (transitions line 0 True t)))) \<and>
    (4 < length (transitions line 0 True t) \<longrightarrow>
       hd (data_bits (transitions line 0 True t)) = (DHT_BREAKTIME <s transitions line 0 True t ! 4))"
proof -
  let ?bits = "data_bits (transitions line 0 True t)"
  from capture_trace [OF assms]
  have j: "j = length ?bits" and d: "data = append_bits ?bits 0 (data_init stack)"
    by (simp_all add: bits_from_data_bits)
  have cell: "data k = push_bit (length (byte_bits k ?bits)) (data_init stack k)
       + msb_first (byte_bits k ?bits)" for k
    unfolding d by (simp add: append_bits_cell cell_bits_0)
  have "data k = msb_first (byte_bits k ?bits)" if "k < 5" for k
  proof -
    have "data_init stack k = 0" using that by (auto simp: data_init_def)
    then show ?thesis using cell [of k] by simp
  qed
  then show ?thesis using j cell data_bits_first by blast
qed

theorem capture_packs_msb_first_witness:
  "capture demo_line 0 True 0 (data_init (\<lambda>k. 7)) 1 = Inr (3, (data_init (\<lambda>k. 7))(0 := 5)) \<and>
   length (data_bits (transitions demo_line 0 True 1)) = 3 \<and>
   msb_first (byte_bits 0 (data_bits (transitions demo_line 0 True 1))) = 5"
proof -
  note c = capture_demo_line [of "\<lambda>k. 7"]
  note r = capture_packs_msb_first [OF c]
  have "length (data_bits (transitions demo_line 0 True 1)) = 3"
    using r [THEN conjunct1] by simp
  moreover have "msb_first (byte_bits 0 (data_bits (transitions demo_line 0 True 1))) = 5"
    using r [THEN conjunct2, THEN conjunct1, rule_format, of 0] by simp
  ultimately show ?thesis using c by simp
qed

text \<open>
  C4. A reading from 39 bits. On \<open>short_frame\<close> the capture loop completes 81
  transitions, which give 39 bits, all 0, before the line stays low. The test
  \<^verbatim>\<open>j >= 39\<close> lets the frame pass, the checksum of the zeroed array matches, and the
  read returns true with a reading, although the message of the other branch asks for
  at least 40 bits.
\<close>

theorem reading_from_39_bits:
  "capture short_frame 0 True 0 (data_init stack) 1 = Inr (39, data_init stack) \<and>
   dht_read fl stack \<lparr>pin = p, type = DHT11\<rparr> output short_frame
     = Inr (Success, output\<lparr>temperature := 0, humidity := 0\<rparr>)"
proof -
  have w: "wait_for_drop short_frame 0 0 = (0, 1)"
    using wait_drop [of 0 short_frame] by (simp add: short_frame_def)
  have "capture short_frame 0 True 0 (data_init stack) 1
      = capture short_frame 1 True 0 (data_init stack) 4"
    by (rule capture_step [where n = 1]) (simp_all add: store_transition_def short_frame_def)
  also have "\<dots> = Inr (39, data_init stack)"
    by (rule toggling_39) (simp_all add: data_init_def)
  finally have c: "capture short_frame 0 True 0 (data_init stack) 1 = Inr (39, data_init stack)" .
  have v: "verify fl \<lparr>pin = p, type = DHT11\<rparr> output 39 (data_init stack)
      = (Success, output\<lparr>temperature := 0, humidity := 0\<rparr>)"
    by (simp add: verify_def data_init_def scale_temperature_def scale_humidity_def)
  show ?thesis using c by (simp add: dht_read_def w v)
qed

text \<open>
  C10. A write outside the array. On \<open>toggling\<close> every transition is complete after
  two reads; the transition of index 1604 is the 801st that stores a bit, and its
  store goes to \<^verbatim>\<open>data[100]\<close>, one cell past the end of \<^verbatim>\<open>int data[100]\<close>.
\<close>

theorem capture_overruns_data:
  "dht_read fl stack sensor output toggling = Inl (BufferOverrun 100)"
proof -
  have w: "wait_for_drop toggling 0 0 = (0, 1)"
    using wait_drop [of 0 toggling] by (simp add: toggling_def)
  have "capture toggling 0 True 0 (data_init stack) 1 = capture toggling 1 True 0 (data_init stack) 4"
    by (rule capture_step [where n = 1]) (simp_all add: store_transition_def toggling_def)
  also have "\<dots> = Inl (BufferOverrun 100)"
    by (rule toggling_overruns) simp_all
  finally show ?thesis by (simp add: dht_read_def w)
qed

end
